theory Spec2Isabelle
  imports Main "HOL-Library.AList"
begin

section \<open>The GBN header\<close>

text \<open>
  Payloads are byte strings. A segment is the GBN header of \<^verbatim>\<open>class GBN(Packet)\<close>
  followed by its payload; the enclosing IP header (fixed source and destination) is
  left out. The fields \<open>blen\<close> ... \<open>length_3\<close> are conditional on \<open>hlen\<close>: a
  dissected header whose \<open>hlen\<close> is below a field's threshold reads that field as
  \<^verbatim>\<open>None\<close>.
\<close>

type_synonym payload = string

record gbn =
  ptype :: int
  options :: int
  plen :: int
  hlen :: int
  num :: int
  pwin :: int
  blen :: int
  left_1 :: int
  length_1 :: int
  padd_2 :: int
  left_2 :: int
  length_2 :: int
  padd_3 :: int
  left_3 :: int
  length_3 :: int
  payload :: payload

definition cond_field :: "int \<Rightarrow> (gbn \<Rightarrow> int) \<Rightarrow> gbn \<Rightarrow> int option" where
  "cond_field threshold f pkt = (if hlen pkt \<ge> threshold then Some (f pkt) else None)"

definition get_blen :: "gbn \<Rightarrow> int option" where
  "get_blen = cond_field 7 blen"

definition get_left_1 :: "gbn \<Rightarrow> int option" where
  "get_left_1 = cond_field 8 left_1"

definition get_length_1 :: "gbn \<Rightarrow> int option" where
  "get_length_1 = cond_field 9 length_1"

definition get_left_2 :: "gbn \<Rightarrow> int option" where
  "get_left_2 = cond_field 11 left_2"

definition get_length_2 :: "gbn \<Rightarrow> int option" where
  "get_length_2 = cond_field 12 length_2"

definition get_left_3 :: "gbn \<Rightarrow> int option" where
  "get_left_3 = cond_field 14 left_3"

definition get_length_3 :: "gbn \<Rightarrow> int option" where
  "get_length_3 = cond_field 15 length_3"

text \<open>\<^verbatim>\<open>GBN(type="data", options=o, len=len(payload), hlen=6, num=n, win=w) / payload\<close>\<close>

definition data_segment :: "int \<Rightarrow> int \<Rightarrow> int \<Rightarrow> payload \<Rightarrow> gbn" where
  "data_segment opts n w pl =
     \<lparr>ptype = 0, options = opts, plen = int (length pl), hlen = 6, num = n, pwin = w,
      blen = 0, left_1 = 0, length_1 = 0, padd_2 = 0, left_2 = 0, length_2 = 0,
      padd_3 = 0, left_3 = 0, length_3 = 0, payload = pl\<rparr>"

datatype py_error = KeyError | IndexError | ValueError | TypeError | AssertionError | StructError

text \<open>
  Sending a header packs each \<^verbatim>\<open>ByteField\<close> that is present into one unsigned byte;
  a value outside \<open>0..255\<close> makes \<^verbatim>\<open>send\<close> raise \<^verbatim>\<open>struct.error\<close>.
\<close>

definition byte :: "int \<Rightarrow> bool" where
  "byte v = (0 \<le> v \<and> v \<le> 255)"

definition cond_byte :: "int option \<Rightarrow> bool" where
  "cond_byte f = (case f of None \<Rightarrow> True | Some v \<Rightarrow> byte v)"

definition sendable :: "gbn \<Rightarrow> bool" where
  "sendable pkt =
     (byte (hlen pkt) \<and> byte (num pkt) \<and> byte (pwin pkt) \<and>
      cond_byte (get_blen pkt) \<and>
      cond_byte (get_left_1 pkt) \<and> cond_byte (get_length_1 pkt) \<and>
      cond_byte (cond_field 10 padd_2 pkt) \<and>
      cond_byte (get_left_2 pkt) \<and> cond_byte (get_length_2 pkt) \<and>
      cond_byte (cond_field 13 padd_3 pkt) \<and>
      cond_byte (get_left_3 pkt) \<and> cond_byte (get_length_3 pkt))"

section \<open>The sender (sender\_alkinoos.py)\<close>

text \<open>
  The in-flight buffer is a Python dict: an association list in insertion order with
  distinct keys. \<open>AList.update\<close> overwrites in place or appends (dict assignment),
  \<open>AList.delete\<close> is \<^verbatim>\<open>pop(k, None)\<close>, \<open>map_of\<close> is the lookup.
\<close>

type_synonym buffer = "(int \<times> payload) list"

record sender =
  win :: int
  n_bits :: nat
  q :: "payload list"
  buffer :: buffer
  current :: int
  unack :: int
  receiver_win :: int
  Q_4_2 :: int
  SACK :: int
  Q_4_4 :: int
  count_acks :: "int \<times> int"

definition parse_args :: "nat \<Rightarrow> payload list \<Rightarrow> int \<Rightarrow> int \<Rightarrow> int \<Rightarrow> int \<Rightarrow> py_error + sender" where
  "parse_args nbits payloads w q42 q43 q44 =
     (if \<not> w < 2 ^ nbits then Inl AssertionError
      else if q42 \<noteq> 0 \<and> q43 \<noteq> 0 then Inl AssertionError
      else Inr \<lparr>win = w, n_bits = nbits, q = payloads, buffer = [], current = 0, unack = 0,
                receiver_win = w, Q_4_2 = q42, SACK = q43, Q_4_4 = q44,
                count_acks = (0, -1)\<rparr>)"

datatype sstate = ST_SEND | ST_END

text \<open>
  State SEND. Each pass through the state sends one segment and re-enters the state
  (\<^verbatim>\<open>raise self.SEND()\<close>); the function follows the passes until the automaton rests
  in SEND (waiting for a packet or the timeout) or reaches END.
\<close>

function SEND :: "sender \<Rightarrow> sender \<times> gbn list \<times> sstate" where
  "SEND s =
     (if int (length (buffer s)) < min (win s) (receiver_win s) then
        (case q s of
           [] \<Rightarrow> (if unack s = current s then (s, [], ST_END) else (s, [], ST_SEND))
         | pl # rest \<Rightarrow>
             (case SEND (s\<lparr>q := rest,
                           buffer := AList.update (current s) pl (buffer s),
                           current := (current s + 1) mod 2 ^ n_bits s\<rparr>) of
                (s', out, st) \<Rightarrow>
                  (s', data_segment (if SACK s \<noteq> 0 then 1 else 0) (current s) (win s) pl # out, st)))
      else (s, [], ST_SEND))"
  by pat_completeness auto
termination
  by (relation "measure (\<lambda>s. length (q s))") auto

declare SEND.simps [simp del]

subsection \<open>State ACK\_IN\<close>

text \<open>Selective Repeat: the duplicate-ack counter \<^verbatim>\<open>count_acks = [count, ack number]\<close>.\<close>

definition count_ack :: "int \<times> int \<Rightarrow> int \<Rightarrow> int \<times> int" where
  "count_ack ca ack = (if ack = snd ca then (fst ca + 1, snd ca) else (0, ack))"

definition selective_repeat :: "sender \<Rightarrow> int \<Rightarrow> (py_error \<times> sender) + (sender \<times> gbn list)" where
  "selective_repeat s ack =
     (let s1 = s\<lparr>count_acks := count_ack (count_acks s) ack\<rparr> in
      if fst (count_acks s1) \<ge> 2 then
        (case map_of (buffer s1) ack of
           None \<Rightarrow> Inl (KeyError, s1)
         | Some pl \<Rightarrow> Inr (s1\<lparr>count_acks := (0, -1)\<rparr>, [data_segment 0 ack (win s1) pl]))
      else Inr (s1, []))"

text \<open>\<^verbatim>\<open>range(a, b)\<close> on integers.\<close>

definition py_range :: "int \<Rightarrow> int \<Rightarrow> int list" where
  "py_range a b = [a..b - 1]"

text \<open>
  One SACK block appended to \<^verbatim>\<open>rec_acks\<close>: two ranges when the block passes
  \<open>2 ^ n_bits\<close>, one otherwise. Adding absent (\<^verbatim>\<open>None\<close>) fields raises TypeError.
\<close>

definition block_ranges :: "nat \<Rightarrow> int option \<Rightarrow> int option \<Rightarrow> py_error + int list list" where
  "block_ranges n l len =
     (case (l, len) of
        (Some lft, Some lng) \<Rightarrow>
          Inr (if lft + lng \<ge> 2 ^ n
               then [py_range lft (2 ^ n),
                     py_range 0 (lng - int (length (py_range lft (2 ^ n))))]
               else [py_range lft (lft + lng)])
      | _ \<Rightarrow> Inl TypeError)"

fun rec_acks_of :: "nat \<Rightarrow> (int option \<times> int option) list \<Rightarrow> py_error + int list list" where
  "rec_acks_of n [] = Inr []"
| "rec_acks_of n ((l, len) # bs) =
     (case block_ranges n l len of
        Inl e \<Rightarrow> Inl e
      | Inr rs \<Rightarrow> (case rec_acks_of n bs of Inl e \<Rightarrow> Inl e | Inr rss \<Rightarrow> Inr (rs @ rss)))"

text \<open>\<^verbatim>\<open>xs.index(x)\<close>: the first position of \<open>x\<close>, ValueError when there is none.\<close>

fun index_of :: "'a list \<Rightarrow> 'a \<Rightarrow> nat option" where
  "index_of [] x = None"
| "index_of (y # ys) x = (if y = x then Some 0 else map_option Suc (index_of ys x))"

text \<open>
  The retransmission of one \<^verbatim>\<open>if blen == k\<close> branch once \<^verbatim>\<open>rec_acks\<close> is built:
  flatten, find the last acknowledged number in the buffer's key list, and resend
  the keys before it that are not acknowledged. The loop reads \<^verbatim>\<open>self.buffer[k]\<close>
  for keys \<open>k\<close> taken from the buffer itself, so the pairs are used directly.
\<close>

definition sack_retransmit :: "sender \<Rightarrow> int list list \<Rightarrow> py_error + gbn list" where
  "sack_retransmit s rec_acks =
     (let flat_rec_acks = concat rec_acks;
          seq_numbers_send = map fst (buffer s)
      in if flat_rec_acks = [] then Inl IndexError
         else (case index_of seq_numbers_send (last flat_rec_acks) of
                 None \<Rightarrow> Inl ValueError
               | Some final_index \<Rightarrow>
                   Inr (map (\<lambda>(k, pl). data_segment 1 k (win s) pl)
                          (filter (\<lambda>(k, pl). k \<notin> set flat_rec_acks)
                             (take final_index (buffer s))))))"

definition sack_blocks :: "gbn \<Rightarrow> (int option \<times> int option) list" where
  "sack_blocks pkt =
     (if get_blen pkt = Some 1 then [(get_left_1 pkt, get_length_1 pkt)]
      else if get_blen pkt = Some 2 then
        [(get_left_1 pkt, get_length_1 pkt), (get_left_2 pkt, get_length_2 pkt)]
      else if get_blen pkt = Some 3 then
        [(get_left_1 pkt, get_length_1 pkt), (get_left_2 pkt, get_length_2 pkt),
         (get_left_3 pkt, get_length_3 pkt)]
      else [])"

definition selective_ack :: "sender \<Rightarrow> gbn \<Rightarrow> (py_error \<times> sender) + (sender \<times> gbn list)" where
  "selective_ack s pkt =
     (if get_blen pkt = Some 1 \<or> get_blen pkt = Some 2 \<or> get_blen pkt = Some 3 then
        (case rec_acks_of (n_bits s) (sack_blocks pkt) of
           Inl e \<Rightarrow> Inl (e, s)
         | Inr rec_acks \<Rightarrow>
             (case sack_retransmit s rec_acks of
                Inl e \<Rightarrow> Inl (e, s)
              | Inr out \<Rightarrow> Inr (s, out)))
      else Inr (s, []))"

text \<open>
  The eviction loop \<^verbatim>\<open>for i in range(1, self.receiver_win+1)\<close>. The key popped in
  the else branch is \<^verbatim>\<open>ack-i%self.receiver_win+2**self.n_bits-1\<close>, which Python reads
  as \<open>ack - (i mod receiver_win) + 2 ^ n_bits - 1\<close>.
\<close>

definition evict_key :: "nat \<Rightarrow> int \<Rightarrow> int \<Rightarrow> int \<Rightarrow> int" where
  "evict_key n rw ack i = (if ack - i \<ge> 0 then ack - i else ack - i mod rw + 2 ^ n - 1)"

definition evict :: "nat \<Rightarrow> int \<Rightarrow> int \<Rightarrow> buffer \<Rightarrow> buffer" where
  "evict n rw ack b = fold (\<lambda>i. AList.delete (evict_key n rw ack i)) [1..rw] b"

text \<open>
  The start of the handler for an ACK: take the advertised window, and switch SACK
  off or on as the \<open>options\<close> field says.
\<close>

definition adopt :: "sender \<Rightarrow> gbn \<Rightarrow> sender" where
  "adopt s pkt =
     (let s1 = s\<lparr>receiver_win := pwin pkt\<rparr> in
      if options pkt = 0 then s1\<lparr>SACK := 0\<rparr>
      else if options pkt = 1 then s1\<lparr>SACK := 1\<rparr>
      else s1)"

text \<open>
  The retransmission part: Selective Repeat if \<^verbatim>\<open>Q_4_2 == 1\<close>, else SACK if
  \<^verbatim>\<open>SACK == 1\<close>, else nothing. A raised exception leaves the object as it was at the
  raise, so the error branch carries that state; no segment has been sent before
  any raise.
\<close>

definition retransmit_on_ack :: "sender \<Rightarrow> gbn \<Rightarrow> (py_error \<times> sender) + (sender \<times> gbn list)" where
  "retransmit_on_ack s pkt =
     (if Q_4_2 s = 1 then selective_repeat s (num pkt)
      else if SACK s = 1 then selective_ack s pkt
      else Inr (s, []))"

text \<open>The handler: a DATA segment is only logged; an ACK is processed as above, then
  \<open>unack\<close> is set and the buffer evicted.\<close>

definition ACK_IN :: "sender \<Rightarrow> gbn \<Rightarrow> (py_error \<times> sender) + (sender \<times> gbn list)" where
  "ACK_IN s pkt =
     (if ptype pkt = 0 then Inr (s, [])
      else
        (case retransmit_on_ack (adopt s pkt) pkt of
           Inl err \<Rightarrow> Inl err
         | Inr (s3, out) \<Rightarrow>
             Inr (s3\<lparr>unack := num pkt,
                      buffer := evict (n_bits s3) (receiver_win s3) (num pkt) (buffer s3)\<rparr>, out)))"

subsection \<open>Timeout and RETRANSMIT\<close>

definition timeout_reached :: "sender \<Rightarrow> sender" where
  "timeout_reached s = s\<lparr>count_acks := (0, -1)\<rparr>"

definition RETRANSMIT :: "sender \<Rightarrow> gbn list" where
  "RETRANSMIT s =
     map (\<lambda>(seqnum, pl). data_segment (if SACK s \<noteq> 0 then 1 else 0) seqnum (win s) pl) (buffer s)"

subsection \<open>The automaton\<close>

text \<open>
  An event reaches the automaton while it rests in SEND: a packet from the receiver
  (ACK\_IN, then SEND) or the timeout (RETRANSMIT, then SEND).
\<close>

datatype sevent = Recv gbn | Timeout

definition sender_step :: "sender \<Rightarrow> sevent \<Rightarrow> (py_error \<times> sender) + (sender \<times> gbn list \<times> sstate)" where
  "sender_step s ev =
     (case ev of
        Recv pkt \<Rightarrow>
          (case ACK_IN s pkt of
             Inl err \<Rightarrow> Inl err
           | Inr (s1, out) \<Rightarrow> (case SEND s1 of (s2, out2, st) \<Rightarrow> Inr (s2, out @ out2, st)))
      | Timeout \<Rightarrow>
          (let s1 = timeout_reached s in
           case SEND s1 of (s2, out2, st) \<Rightarrow> Inr (s2, RETRANSMIT s1 @ out2, st)))"

text \<open>A run: BEGIN enters SEND; events are taken while the automaton rests in SEND.\<close>

fun sender_events :: "sender \<times> gbn list \<times> sstate \<Rightarrow> sevent list \<Rightarrow> (py_error \<times> sender) + (sender \<times> gbn list \<times> sstate)" where
  "sender_events c [] = Inr c"
| "sender_events (s, out, ST_END) (ev # evs) = Inr (s, out, ST_END)"
| "sender_events (s, out, ST_SEND) (ev # evs) =
     (case sender_step s ev of
        Inl err \<Rightarrow> Inl err
      | Inr (s', out', st) \<Rightarrow> sender_events (s', out @ out', st) evs)"

definition sender_run :: "sender \<Rightarrow> sevent list \<Rightarrow> (py_error \<times> sender) + (sender \<times> gbn list \<times> sstate)" where
  "sender_run s0 evs = sender_events (SEND s0) evs"

text \<open>A plain cumulative ACK as the receiver builds it (\<open>hlen = 6\<close>, no blocks).\<close>

definition ack_segment :: "int \<Rightarrow> int \<Rightarrow> gbn" where
  "ack_segment n w =
     \<lparr>ptype = 1, options = 0, plen = 0, hlen = 6, num = n, pwin = w,
      blen = 0, left_1 = 0, length_1 = 0, padd_2 = 0, left_2 = 0, length_2 = 0,
      padd_3 = 0, left_3 = 0, length_3 = 0, payload = []\<rparr>"

section \<open>The receiver (receiver\_alkinoos.py)\<close>

text \<open>
  The out-of-order buffer is kept in two parallel lists, \<^verbatim>\<open>buffer\<close> (payloads) and
  \<^verbatim>\<open>buffer_seq\<close> (their sequence numbers), with \<^verbatim>\<open>buffer_size\<close> counting them.
  The output file is the byte string written so far.
\<close>

record receiver =
  r_win :: int
  r_n_bits :: nat
  p_size :: int
  nxt :: int
  end_receiver :: bool
  end_num :: int
  r_buffer :: "payload list"
  buffer_seq :: "int list"
  buffer_size :: int
  out_file :: payload

definition r_parse_args :: "nat \<Rightarrow> int \<Rightarrow> int \<Rightarrow> py_error + receiver" where
  "r_parse_args nbits window chunk_size =
     (if \<not> window \<le> 2 ^ nbits then Inl AssertionError
      else Inr \<lparr>r_win = window, r_n_bits = nbits, p_size = chunk_size, nxt = 0,
                end_receiver = False, end_num = -1, r_buffer = [], buffer_seq = [],
                buffer_size = 0, out_file = []\<rparr>)"

text \<open>
  Where the automaton is after a handler: waiting for the next segment, in its final
  state, or stopped by an exception raised in the handler.
\<close>

datatype rstate = WAIT_SEGMENT | R_END | R_RAISED py_error

text \<open>
  The inner loop \<^verbatim>\<open>for itemSeq, item in zip(self.buffer_seq, self.buffer)\<close>. Both lists
  are changed inside the loop, and the list iterators go on by position: after a
  removal the loop continues at position \<open>i + 1\<close> of the shortened lists.
  \<^verbatim>\<open>list.remove\<close> deletes the first element equal to its argument (\<open>remove1\<close>).
  \<open>deliver_buffered i\<close> is the body run for a matching pair at position \<open>i\<close>.
\<close>

definition deliver_buffered :: "nat \<Rightarrow> receiver \<Rightarrow> receiver" where
  "deliver_buffered i r =
     (let itemSeq = buffer_seq r ! i; item = r_buffer r ! i in
      r\<lparr>out_file := out_file r @ item,
        buffer_size := buffer_size r - 1,
        r_buffer := remove1 item (r_buffer r),
        buffer_seq := (if itemSeq \<in> set (buffer_seq r)
                       then remove1 itemSeq (buffer_seq r) else buffer_seq r),
        nxt := (nxt r + 1) mod 2 ^ r_n_bits r\<rparr>)"

function drain_for :: "nat \<Rightarrow> receiver \<Rightarrow> receiver" where
  "drain_for i r =
     (if i < length (buffer_seq r) \<and> i < length (r_buffer r) then
        (if buffer_seq r ! i = nxt r then drain_for (i + 1) (deliver_buffered i r)
         else drain_for (i + 1) r)
      else r)"
  by pat_completeness auto
termination
  by (relation "measure (\<lambda>(i, r). length (buffer_seq r) - i)")
    (auto simp: deliver_buffered_def Let_def length_remove1)

declare drain_for.simps [simp del]

text \<open>
  The outer loop \<^verbatim>\<open>while self.buffer_size > 0\<close>. Nothing in the loop itself bounds
  the number of rounds, so not returning is the value \<open>None\<close>.
\<close>

partial_function (option) drain_while :: "receiver \<Rightarrow> receiver option" where
  "drain_while r =
     (if buffer_size r > 0 then
        (if nxt r \<in> set (buffer_seq r) then drain_while (drain_for 0 r) else Some r)
      else Some r)"

declare drain_while.simps [code]

text \<open>The in-order branch: write the payload, advance, drain the buffer.\<close>

definition deliver :: "receiver \<Rightarrow> payload \<Rightarrow> receiver option" where
  "deliver r pl =
     drain_while (r\<lparr>out_file := out_file r @ pl, nxt := (nxt r + 1) mod 2 ^ r_n_bits r\<rparr>)"

text \<open>The out-of-sequence branch: buffer the segment if it lies in the window.\<close>

definition store :: "receiver \<Rightarrow> int \<Rightarrow> payload \<Rightarrow> receiver" where
  "store r n pl =
     (let firstElement = nxt r + 1;
          lastElement = nxt r + r_win r - 1;
          firstElement' = (if n < nxt r then firstElement - 2 ^ r_n_bits r else firstElement);
          lastElement' = (if n < nxt r then lastElement - 2 ^ r_n_bits r else lastElement)
      in if lastElement' \<ge> n \<and> n \<ge> firstElement' then
           (if n \<notin> set (buffer_seq r) then
              r\<lparr>buffer_size := buffer_size r + 1,
                r_buffer := r_buffer r @ [pl],
                buffer_seq := buffer_seq r @ [n]\<rparr>
            else r)
         else r)"

subsection \<open>SACK blocks\<close>

text \<open>
  The order in which the buffered numbers are scanned. \<^verbatim>\<open>i >= max_value/2\<close> compares
  with a float; on integers it is \<open>2 * i \<ge> 2 ^ n_bits\<close>.
\<close>

definition sorted_buffer_seq :: "receiver \<Rightarrow> int list" where
  "sorted_buffer_seq r =
     (let max_value = 2 ^ r_n_bits r;
          over_sorted = sort (filter (\<lambda>i. 2 * i \<ge> max_value) (buffer_seq r));
          under_sorted = sort (filter (\<lambda>i. \<not> 2 * i \<ge> max_value) (buffer_seq r))
      in case (over_sorted, under_sorted) of
           (ov # _, un # _) \<Rightarrow>
             (if ov \<ge> max_value - r_win r \<and> un \<le> r_win r
              then over_sorted @ under_sorted else under_sorted @ over_sorted)
         | (_ # _, []) \<Rightarrow> over_sorted
         | ([], _ # _) \<Rightarrow> under_sorted
         | ([], []) \<Rightarrow> [])"

text \<open>
  \<^verbatim>\<open>ranges\<close>: the neighbours \<open>(a, b)\<close> of the scanned list at which a block ends and the
  next one starts, flattened.
\<close>

definition is_split :: "nat \<Rightarrow> int \<times> int \<Rightarrow> bool" where
  "is_split n seq_num = (fst seq_num + 1 \<noteq> snd seq_num \<and> fst seq_num \<noteq> 2 ^ n - 1)"

definition ranges :: "nat \<Rightarrow> int list \<Rightarrow> int list" where
  "ranges n xs = concat (map (\<lambda>(a, b). [a, b]) (filter (is_split n) (zip xs (tl xs))))"

definition start_end_ranges :: "nat \<Rightarrow> int list \<Rightarrow> int list" where
  "start_end_ranges n xs = take 1 xs @ ranges n xs @ (if xs = [] then [] else [last xs])"

definition wrap_len :: "nat \<Rightarrow> int \<Rightarrow> int" where
  "wrap_len n l = (if l < 0 then 2 ^ n + l else l)"

text \<open>The acknowledgment sent for a data segment \<open>pkt\<close>, plain or with SACK blocks.\<close>

definition make_ack :: "receiver \<Rightarrow> gbn \<Rightarrow> gbn" where
  "make_ack r pkt =
     (if options pkt = 0 then
        \<lparr>ptype = 1, options = 0, plen = 0, hlen = 6, num = nxt r, pwin = r_win r,
         blen = 0, left_1 = 0, length_1 = 0, padd_2 = 0, left_2 = 0, length_2 = 0,
         padd_3 = 0, left_3 = 0, length_3 = 0, payload = []\<rparr>
      else
        let n = r_n_bits r;
            se = start_end_ranges n (sorted_buffer_seq r);
            k = (if length se = 2 then 1 else if length se = 4 then 2
                 else if length se \<ge> 6 then 3 else 0);
            first_1 = (if k \<ge> 1 then se ! 0 else 0);
            len_1 = (if k \<ge> 1 then se ! 1 - first_1 + 1 else 0);
            first_2 = (if k \<ge> 2 then se ! 2 else 0);
            len_2 = (if k \<ge> 2 then se ! 3 - first_2 + 1 else 0);
            first_3 = (if k \<ge> 3 then se ! 4 else 0);
            len_3 = (if k \<ge> 3 then se ! 5 - first_3 + 1 else 0)
        in \<lparr>ptype = 1, options = 1, plen = 0, hlen = 6 + 3 * k, num = nxt r, pwin = r_win r,
            blen = k, left_1 = first_1, length_1 = wrap_len n len_1, padd_2 = 0,
            left_2 = first_2, length_2 = wrap_len n len_2, padd_3 = 0,
            left_3 = first_3, length_3 = wrap_len n len_3, payload = []\<rparr>)"

subsection \<open>State DATA\_IN\<close>

text \<open>
  The two calls of \<^verbatim>\<open>random.random()\<close> are inputs: \<open>data_lost\<close> says that the first
  draw fell below \<open>p_data\<close>, \<open>ack_lost\<close> that the second fell below \<open>p_ack\<close>.
  When the ACK cannot be packed (the window \<^verbatim>\<open>self.win\<close> is not a byte, say),
  \<^verbatim>\<open>send\<close> raises after the state has been updated: the handler stops in
  \<open>R_RAISED\<close> with the state as it was at the raise and nothing sent.
\<close>

definition DATA_IN :: "receiver \<Rightarrow> gbn \<Rightarrow> bool \<Rightarrow> bool \<Rightarrow> (receiver \<times> gbn list \<times> rstate) option" where
  "DATA_IN r pkt data_lost ack_lost =
     (if data_lost then Some (r, [], WAIT_SEGMENT)
      else if ptype pkt = 0 then
        (let r1 = (if int (length (payload pkt)) < p_size r
                   then r\<lparr>end_receiver := True, end_num := (num pkt + 1) mod 2 ^ r_n_bits r\<rparr>
                   else r)
         in case (if num pkt = nxt r1 then deliver r1 (payload pkt)
                  else Some (store r1 (num pkt) (payload pkt))) of
              None \<Rightarrow> None
            | Some r2 \<Rightarrow>
                if ack_lost then Some (r2, [], WAIT_SEGMENT)
                else if \<not> sendable (make_ack r2 pkt) then Some (r2, [], R_RAISED StructError)
                else Some (r2, [make_ack r2 pkt],
                           if end_receiver r2 \<and> end_num r2 = nxt r2 then R_END else WAIT_SEGMENT))
      else Some (r, [], WAIT_SEGMENT))"

text \<open>
  A run of the receiver: segments are taken while it rests in WAIT\_SEGMENT; once it
  has ended or stopped on an exception, no further segment is handled.
\<close>

fun receiver_run :: "receiver \<times> gbn list \<times> rstate \<Rightarrow> (gbn \<times> bool \<times> bool) list \<Rightarrow> (receiver \<times> gbn list \<times> rstate) option" where
  "receiver_run c [] = Some c"
| "receiver_run (r, out, R_END) (ev # evs) = Some (r, out, R_END)"
| "receiver_run (r, out, R_RAISED e) (ev # evs) = Some (r, out, R_RAISED e)"
| "receiver_run (r, out, WAIT_SEGMENT) ((pkt, data_lost, ack_lost) # evs) =
     (case DATA_IN r pkt data_lost ack_lost of
        None \<Rightarrow> None
      | Some (r', out', st) \<Rightarrow> receiver_run (r', out @ out', st) evs)"

section \<open>Sequence ranges and concrete configurations\<close>

text \<open>
  The modular range \<open>[u, c)\<close> of sequence numbers modulo \<open>2 ^ n\<close>, in order: the keys
  the in-flight buffer is meant to hold for \<open>u = unack\<close> and \<open>c = current\<close>.
\<close>

definition seq_range :: "nat \<Rightarrow> int \<Rightarrow> int \<Rightarrow> int list" where
  "seq_range n u c = map (\<lambda>i. (u + int i) mod 2 ^ n) [0..<nat ((c - u) mod 2 ^ n)]"

text \<open>Six one-byte chunks to send.\<close>

definition wrap_payloads :: "payload list" where
  "wrap_payloads = [''a'', ''b'', ''c'', ''d'', ''e'', ''f'']"

text \<open>
  A sender with 2-bit sequence numbers and window 2 that has sent segments 0..3 and
  then segment 0 again after the wrap, with 3 and 0 still unacknowledged.
\<close>

definition wrap_state :: sender where
  "wrap_state = \<lparr>win = 2, n_bits = 2, q = [''f''], buffer = [(3, ''d''), (0, ''e'')],
     current = 1, unack = 3, receiver_win = 2, Q_4_2 = 0, SACK = 0, Q_4_4 = 0,
     count_acks = (0, -1)\<rparr>"

text \<open>A sender resting in SEND with a full window.\<close>

definition full_state :: sender where
  "full_state = \<lparr>win = 2, n_bits = 2, q = [''c''], buffer = [(0, ''a''), (1, ''b'')],
     current = 2, unack = 0, receiver_win = 2, Q_4_2 = 0, SACK = 0, Q_4_4 = 0,
     count_acks = (0, -1)\<rparr>"

text \<open>A fresh receiver: 3-bit sequence numbers, window 4, one-byte chunks.\<close>

definition idle_receiver :: receiver where
  "idle_receiver = \<lparr>r_win = 4, r_n_bits = 3, p_size = 1, nxt = 0,
     end_receiver = False, end_num = -1, r_buffer = [], buffer_seq = [],
     buffer_size = 0, out_file = []\<rparr>"

text \<open>A data segment as it reaches the receiver, neither it nor its ACK being lost.\<close>

definition arrives :: "int \<Rightarrow> int \<Rightarrow> payload \<Rightarrow> gbn \<times> bool \<times> bool" where
  "arrives opts n pl = (data_segment opts n 4 pl, False, False)"

text \<open>The sender state with the duplicate-ack counter put back to its initial value.\<close>

definition forget_count :: "sender \<Rightarrow> sender" where
  "forget_count s = s\<lparr>count_acks := (0, -1)\<rparr>"

text \<open>
  A sender in Selective-Repeat mode with segments 0 and 1 in flight that has seen
  the ACK number 0 twice in a row.
\<close>

definition sr_state :: sender where
  "sr_state = \<lparr>win = 2, n_bits = 2, q = [''c''], buffer = [(0, ''a''), (1, ''b'')],
     current = 2, unack = 0, receiver_win = 2, Q_4_2 = 1, SACK = 0, Q_4_4 = 0,
     count_acks = (1, 0)\<rparr>"

subsection \<open>SACK blocks as the spec words them\<close>

text \<open>
  The blocks an ACK carries, the modular sequence range \<open>left, left + 1, ...\<close>
  (\<open>length\<close> numbers modulo \<open>2 ^ n\<close>) of one block, and the list \<open>R\<close> of all numbers
  the carried blocks acknowledge. A block lies in the sequence space when its left
  edge is a sequence number and its length is at most \<open>2 ^ n\<close>.
\<close>

definition carried_blocks :: "gbn \<Rightarrow> (int \<times> int) list" where
  "carried_blocks pkt =
     take (nat (blen pkt)) [(left_1 pkt, length_1 pkt), (left_2 pkt, length_2 pkt),
                            (left_3 pkt, length_3 pkt)]"

definition mod_block :: "nat \<Rightarrow> int \<times> int \<Rightarrow> int list" where
  "mod_block n b = map (\<lambda>j. (fst b + int j) mod 2 ^ n) [0..<nat (snd b)]"

definition sacked :: "nat \<Rightarrow> gbn \<Rightarrow> int list" where
  "sacked n pkt = concat (map (mod_block n) (carried_blocks pkt))"

definition in_seq_space :: "nat \<Rightarrow> int \<times> int \<Rightarrow> bool" where
  "in_seq_space n b = (0 \<le> fst b \<and> fst b < 2 ^ n \<and> 0 \<le> snd b \<and> snd b \<le> 2 ^ n)"

text \<open>
  A sender in SACK mode with segments 6, 7, 0, 1 in flight, and an ACK for 6 whose
  two blocks acknowledge 7 and 1.
\<close>

definition sack_state :: sender where
  "sack_state = \<lparr>win = 4, n_bits = 3, q = [''k''],
     buffer = [(6, ''g''), (7, ''h''), (0, ''i''), (1, ''j'')],
     current = 2, unack = 6, receiver_win = 4, Q_4_2 = 0, SACK = 1, Q_4_4 = 0,
     count_acks = (0, -1)\<rparr>"

definition sack_ack :: gbn where
  "sack_ack = \<lparr>ptype = 1, options = 1, plen = 0, hlen = 12, num = 6, pwin = 4,
      blen = 2, left_1 = 7, length_1 = 1, padd_2 = 0, left_2 = 1, length_2 = 1,
      padd_3 = 0, left_3 = 0, length_3 = 0, payload = []\<rparr>"

subsection \<open>Invariants of the receiver\<close>

text \<open>
  The two buffer lists and the counter agree, no number is buffered twice, and
  \<open>expected\<close> and the buffered numbers are sequence numbers.
\<close>

definition wf_buffer :: "receiver \<Rightarrow> bool" where
  "wf_buffer r =
     (buffer_size r = int (length (buffer_seq r)) \<and>
      length (r_buffer r) = length (buffer_seq r) \<and>
      distinct (buffer_seq r) \<and>
      0 \<le> nxt r \<and> nxt r < 2 ^ r_n_bits r \<and>
      list_all (\<lambda>k. 0 \<le> k \<and> k < 2 ^ r_n_bits r) (buffer_seq r))"

text \<open>
  Every buffered number lies at a modular distance between \<open>lo\<close> and \<open>hi\<close> ahead of
  \<open>expected\<close>.
\<close>

definition within :: "receiver \<Rightarrow> int \<Rightarrow> int \<Rightarrow> bool" where
  "within r lo hi =
     list_all (\<lambda>k. lo \<le> (k - nxt r) mod 2 ^ r_n_bits r \<and> (k - nxt r) mod 2 ^ r_n_bits r \<le> hi)
       (buffer_seq r)"

definition receiver_inv :: "receiver \<Rightarrow> bool" where
  "receiver_inv r = (wf_buffer r \<and> within r 1 (r_win r - 1))"

text \<open>
  An incoming segment that is dropped by the loss simulator, or is not of type DATA,
  or carries a sequence number: the segments that do not put a number outside
  \<open>0 ..< 2 ^ n_bits\<close> before the receiver's window test.
\<close>

definition numbered :: "nat \<Rightarrow> gbn \<times> bool \<times> bool \<Rightarrow> bool" where
  "numbered nbits ev =
     (fst (snd ev) \<or> ptype (fst ev) \<noteq> 0 \<or> (0 \<le> num (fst ev) \<and> num (fst ev) < 2 ^ nbits))"

text \<open>A fresh receiver with 2-bit sequence numbers, window 2, one-byte chunks.\<close>

definition small_receiver :: receiver where
  "small_receiver = \<lparr>r_win = 2, r_n_bits = 2, p_size = 1, nxt = 0,
     end_receiver = False, end_num = -1, r_buffer = [], buffer_seq = [],
     buffer_size = 0, out_file = []\<rparr>"

text \<open>Eight one-byte chunks to send.\<close>

definition eight_payloads :: "payload list" where
  "eight_payloads = [''a'', ''b'', ''c'', ''d'', ''e'', ''f'', ''g'', ''h'']"

text \<open>A fresh receiver with 2-bit sequence numbers, window 3, one-byte chunks.\<close>

definition three_receiver :: receiver where
  "three_receiver = \<lparr>r_win = 3, r_n_bits = 2, p_size = 1, nxt = 0,
     end_receiver = False, end_num = -1, r_buffer = [], buffer_seq = [],
     buffer_size = 0, out_file = []\<rparr>"

text \<open>A fresh receiver with 3-bit sequence numbers, window 6, one-byte chunks.\<close>

definition six_receiver :: receiver where
  "six_receiver = \<lparr>r_win = 6, r_n_bits = 3, p_size = 1, nxt = 0,
     end_receiver = False, end_num = -1, r_buffer = [], buffer_seq = [],
     buffer_size = 0, out_file = []\<rparr>"

text \<open>
  Two ACKs of that receiver in SACK format: the cumulative ACK for 2 with no block,
  and the ACK for 2 with the single block \<open>(left = 4, length = 0)\<close>.
\<close>

definition cum_ack_2 :: gbn where
  "cum_ack_2 = \<lparr>ptype = 1, options = 1, plen = 0, hlen = 6, num = 2, pwin = 6,
      blen = 0, left_1 = 0, length_1 = 0, padd_2 = 0, left_2 = 0, length_2 = 0,
      padd_3 = 0, left_3 = 0, length_3 = 0, payload = []\<rparr>"

definition empty_block_ack :: gbn where
  "empty_block_ack = \<lparr>ptype = 1, options = 1, plen = 0, hlen = 9, num = 2, pwin = 6,
      blen = 1, left_1 = 4, length_1 = 0, padd_2 = 0, left_2 = 0, length_2 = 0,
      padd_3 = 0, left_3 = 0, length_3 = 0, payload = []\<rparr>"

section \<open>Properties of the sender\<close>

lemma fold_delete_filter:
  "fold (\<lambda>i. AList.delete (f i)) is b = filter (\<lambda>(k, v). k \<notin> f ` set is) b"
proof (induction "is" arbitrary: b)
  case Nil
  then show ?case by simp
next
  case (Cons i "is")
  have "filter (\<lambda>(k, v). k \<notin> f ` set is) (AList.delete (f i) b)
      = filter (\<lambda>(k, v). k \<notin> f ` set (i # is)) b"
    by (induction b) (auto simp: AList.delete_eq)
  with Cons show ?case by simp
qed

lemma evict_filter:
  "evict n rw ack b = filter (\<lambda>(k, v). k \<notin> evict_key n rw ack ` {1..rw}) b"
  by (simp add: evict_def fold_delete_filter)

lemma wrap_state_reached:
  "\<exists>s0 out. parse_args 2 wrap_payloads 2 0 0 0 = Inr s0 \<and>
     sender_run s0 [Recv (ack_segment 2 2), Recv (ack_segment 3 2)] = Inr (wrap_state, out, ST_SEND)"
  by (simp add: parse_args_def wrap_payloads_def wrap_state_def sender_run_def sender_step_def
      SEND.simps ACK_IN_def adopt_def retransmit_on_ack_def ack_segment_def evict_def evict_key_def upto.simps data_segment_def)

text \<open>
  C1 (the code departs from it). The claim: on an ACK with number \<open>ack\<close> and window
  \<open>W_r\<close> the sender removes, for every \<open>i\<close> in \<open>[1, W_r]\<close>, the key
  \<open>(ack - i) mod 2 ^ n_bits\<close>. In \<open>wrap_state\<close> (reached by a run, see
  \<open>wrap_state_reached\<close>) the ACK with number 1 and window 2 leaves key 3 in the
  buffer, although \<open>(1 - 2) mod 4 = 3\<close>: the loop pops \<open>1 - (2 mod 2) + 4 - 1 = 4\<close>.
\<close>

theorem C1_eviction_keeps_wrapped_key:
  "ACK_IN wrap_state (ack_segment 1 2)
     = Inr (wrap_state\<lparr>unack := 1, buffer := [(3, ''d'')]\<rparr>, [])
   \<and> pwin (ack_segment 1 2) = 2
   \<and> (num (ack_segment 1 2) - 2) mod 2 ^ n_bits wrap_state = 3"
  by (simp add: wrap_state_def ACK_IN_def adopt_def retransmit_on_ack_def ack_segment_def evict_def evict_key_def upto.simps)

text \<open>
  C2 (the code departs from it). The claim: in every reachable sender state the keys
  of the buffer are exactly the modular range \<open>[unack, current)\<close>. The run below, from
  the initial state, ends resting in SEND with \<open>unack = 1\<close>, \<open>current = 2\<close> and the
  keys 3 and 1 in the buffer, where the range is just 1.
\<close>

theorem C2_buffer_keys_not_window:
  "\<exists>s0 s out. parse_args 2 wrap_payloads 2 0 0 0 = Inr s0 \<and>
     sender_run s0 [Recv (ack_segment 2 2), Recv (ack_segment 3 2), Recv (ack_segment 1 2)]
       = Inr (s, out, ST_SEND) \<and>
     map fst (buffer s) = [3, 1] \<and> seq_range (n_bits s) (unack s) (current s) = [1]"
  by (simp add: parse_args_def wrap_payloads_def sender_run_def sender_step_def seq_range_def
      SEND.simps ACK_IN_def adopt_def retransmit_on_ack_def ack_segment_def evict_def evict_key_def upto.simps data_segment_def)

text \<open>
  C10 (the code departs from it). The claim: when the duplicate-ack count reaches 2
  the ack number is a key of the buffer. A sender with window 4 whose receiver
  advertises window 1 sends 0..3; the ACK 4 evicts key 3 only, the timeout resends
  0, 1, 2, and the three ACKs 4 that answer them bring the count to 2 with 4 not in
  the buffer: the handler raises KeyError.
\<close>

theorem C10_fast_retransmit_key_error:
  "\<exists>s0 s. parse_args 3 wrap_payloads 4 1 0 0 = Inr s0 \<and>
     sender_run s0 [Recv (ack_segment 4 1), Timeout, Recv (ack_segment 4 1),
                    Recv (ack_segment 4 1), Recv (ack_segment 4 1)] = Inl (KeyError, s) \<and>
     count_acks s = (2, 4) \<and> map fst (buffer s) = [0, 1, 2]"
  by (simp add: parse_args_def wrap_payloads_def sender_run_def sender_step_def timeout_reached_def
      RETRANSMIT_def selective_repeat_def count_ack_def
      SEND.simps ACK_IN_def adopt_def retransmit_on_ack_def ack_segment_def evict_def evict_key_def upto.simps data_segment_def)

text \<open>
  C5 (the code departs from it). The claim: for every sequence of received ACKs, when
  the count reaches 2, on the third identical ack number in a row, the sender
  retransmits \<open>buffer[ack]\<close> once as DATA and resets the count and the recorded
  value. A sender with window 4 whose receiver advertises window 1 sends 0..3; the
  ACK 4 evicts key 3 only, so nothing new is sent, and the timeout resends 0, 1, 2.
  The first two ACKs 4 that answer them bring the counter to \<open>(1, 4)\<close>. The third
  brings the count to 2, 4 is not a key of the buffer, and the handler raises
  KeyError: no segment is sent and the counter is left at \<open>(2, 4)\<close>, not reset.
\<close>

theorem C5_third_ack_raises:
  "\<exists>s0 s out. parse_args 3 wrap_payloads 4 1 0 0 = Inr s0 \<and>
     sender_run s0 [Recv (ack_segment 4 1), Timeout, Recv (ack_segment 4 1),
                    Recv (ack_segment 4 1)]
       = Inr (s, out, ST_SEND) \<and>
     count_acks s = (1, 4) \<and> map fst (buffer s) = [0, 1, 2] \<and>
     map num out = [0, 1, 2, 3, 0, 1, 2] \<and>
     sender_step s (Recv (ack_segment 4 1)) = Inl (KeyError, s\<lparr>count_acks := (2, 4)\<rparr>)"
  by (simp add: parse_args_def wrap_payloads_def sender_run_def sender_step_def timeout_reached_def
      RETRANSMIT_def selective_repeat_def count_ack_def
      SEND.simps ACK_IN_def adopt_def retransmit_on_ack_def ack_segment_def evict_def
      evict_key_def upto.simps data_segment_def)

lemma duplicate_ack_sent:
  "map_option (\<lambda>(r, out, st). (nxt r, buffer_seq r, out, st))
     (receiver_run (three_receiver, [], WAIT_SEGMENT)
       [(data_segment 0 0 3 ''a'', False, True), (data_segment 0 1 3 ''b'', False, True),
        (data_segment 0 2 3 ''c'', False, False), (data_segment 0 3 3 ''d'', True, False),
        (data_segment 0 0 3 ''e'', False, False)])
   = Some (3, [0], [ack_segment 3 3, ack_segment 3 3], WAIT_SEGMENT)"
  by code_simp

text \<open>
  C8 (the code departs from it). The claim: receiving the same ACK a second time
  leaves \<open>unack\<close>, \<open>current\<close> and the buffer as the first receipt left them. With
  2-bit numbers and window 3 the sender sends 0, 1, 2; the ACK 3 empties the buffer
  and SEND sends 3, 0, 1. The receiver answers segment 0 (3 being lost) with the
  same ACK 3 (\<open>duplicate_ack_sent\<close>). On this second receipt the eviction removes
  the keys 2, 1, 0, of which 0 and 1 are the segments just sent, and SEND goes on
  sending: the buffer and \<open>current\<close> are not what the first receipt left.
\<close>

theorem C8_second_ack_evicts_live_segments:
  "\<exists>s0 s1 out1 s2 out2. parse_args 2 eight_payloads 3 0 0 0 = Inr s0 \<and>
     sender_run s0 [Recv (ack_segment 3 3)] = Inr (s1, out1, ST_SEND) \<and>
     sender_run s0 [Recv (ack_segment 3 3), Recv (ack_segment 3 3)] = Inr (s2, out2, ST_SEND) \<and>
     buffer s1 = [(3, ''d''), (0, ''e''), (1, ''f'')] \<and> current s1 = 2 \<and> unack s1 = 3 \<and>
     buffer s2 = [(3, ''h''), (2, ''g'')] \<and> current s2 = 0 \<and> unack s2 = 3"
  by (simp add: parse_args_def eight_payloads_def sender_run_def sender_step_def
      SEND.simps ACK_IN_def adopt_def retransmit_on_ack_def ack_segment_def evict_def
      evict_key_def upto.simps data_segment_def)

lemma empty_block_built:
  "map_option (\<lambda>(r, out, st). (nxt r, sorted_buffer_seq r, out, st))
     (receiver_run (six_receiver, [], WAIT_SEGMENT)
       [(data_segment 1 0 6 ''a'', False, True), (data_segment 1 1 6 ''b'', False, False),
        (data_segment 1 2 6 ''c'', True, False), (data_segment 1 3 6 ''d'', False, True),
        (data_segment 1 4 6 ''e'', False, True), (data_segment 1 5 6 ''f'', False, True),
        (data_segment 1 6 6 ''g'', False, True), (data_segment 1 7 6 ''h'', False, False)])
   = Some (2, [4, 5, 6, 7, 3], [cum_ack_2, empty_block_ack], WAIT_SEGMENT)"
  by code_simp

text \<open>
  C7 (the code departs from it). The claim: on an ACK with 1, 2 or 3 blocks the
  sender expands the blocks into \<open>R\<close>, takes \<open>final_idx\<close>, the index in the buffer's
  key list of the last number of \<open>R\<close>, and retransmits the keys before it that are
  not in \<open>R\<close>. With 3-bit numbers and window 6 on both sides, segment 2 lost and
  3..7 buffered, the receiver scans \<open>[4, 5, 6, 7, 3]\<close> and sends the one block
  \<open>(left = 4, length = 0)\<close> (\<open>empty_block_built\<close>). For this ACK \<open>R\<close> is empty,
  \<^verbatim>\<open>flat_rec_acks[-1]\<close> raises IndexError, and the handler ends there: nothing is
  retransmitted, although segment 2 is in the buffer and not acknowledged.
\<close>

theorem C7_empty_block_raises:
  "\<exists>s0 s. parse_args 3 eight_payloads 6 0 1 0 = Inr s0 \<and>
     sender_run s0 [Recv cum_ack_2, Recv empty_block_ack] = Inl (IndexError, s) \<and>
     map fst (buffer s) = [2, 3, 6, 7] \<and> unack s = 2 \<and>
     sacked (n_bits s) empty_block_ack = []"
  by (simp add: parse_args_def eight_payloads_def sender_run_def sender_step_def
      SEND.simps ACK_IN_def adopt_def retransmit_on_ack_def selective_ack_def sack_blocks_def
      sack_retransmit_def block_ranges_def py_range_def cond_field_def get_blen_def
      get_left_1_def get_length_1_def cum_ack_2_def empty_block_ack_def
      sacked_def carried_blocks_def mod_block_def
      evict_def evict_key_def upto.simps data_segment_def)

section \<open>Concrete runs of the receiver\<close>

lemma misaligned_buffer_reached:
  "map_option (\<lambda>(r, out, st). (nxt r, buffer_seq r, r_buffer r, st))
     (receiver_run (idle_receiver, [], WAIT_SEGMENT)
       [arrives 0 2 ''a'', arrives 0 3 ''b'', arrives 0 1 ''a''])
   = Some (0, [2, 3, 1], [''a'', ''b'', ''a''], WAIT_SEGMENT)"
  by code_simp

text \<open>
  C6 (the code departs from it). The claim: after the expected segment arrives, the
  buffered run that follows it is delivered in sequence-number order, each step
  removing exactly the delivered entry. Segments 2, 3, 1 arrive with payloads
  \<open>a\<close>, \<open>b\<close>, \<open>a\<close> and are buffered, then segment 0 arrives with payload \<open>x\<close>.
  In sequence-number order the stream is \<open>x a a b\<close>; the receiver writes \<open>x a b a\<close>:
  delivering segment 1, \<^verbatim>\<open>self.buffer.remove(item)\<close> removes the first payload equal
  to \<open>a\<close>, which is segment 2's, and the two lists no longer line up.
\<close>

theorem C6_drain_misdelivers:
  "map_option (\<lambda>(r, out, st). (out_file r, nxt r, buffer_seq r, st))
     (receiver_run (idle_receiver, [], WAIT_SEGMENT)
       [arrives 0 2 ''a'', arrives 0 3 ''b'', arrives 0 1 ''a'', arrives 0 0 ''x''])
   = Some (''xaba'', 4, [], WAIT_SEGMENT)"
  by code_simp

text \<open>
  C4 (the code departs from it). The claim: neighbours \<open>a\<close>, \<open>b\<close> of the scanned list
  are split whenever \<open>b\<close> is not the successor of \<open>a\<close> modulo \<open>2 ^ n_bits\<close>, also when
  \<open>a = 2 ^ n_bits - 1\<close> and \<open>b \<noteq> 0\<close>. With 3-bit numbers and window 4, after 0..5
  were delivered, segments 7 and 1 arrive (6 and 0 are missing). The scanned list
  is \<open>[7, 1]\<close>, no split is found, and the ACK carries the single block
  \<open>(left = 7, length = 3)\<close>, which covers the missing segment 0.
\<close>

theorem C4_wrap_hides_gap:
  "map_option (\<lambda>(r, out, st).
       (nxt r, sorted_buffer_seq r, ranges (r_n_bits r) (sorted_buffer_seq r),
        blen (last out), left_1 (last out), length_1 (last out), st))
     (receiver_run (idle_receiver, [], WAIT_SEGMENT)
       [arrives 1 0 ''a'', arrives 1 1 ''b'', arrives 1 2 ''c'', arrives 1 3 ''d'',
        arrives 1 4 ''e'', arrives 1 5 ''f'', arrives 1 7 ''h'', arrives 1 1 ''j''])
   = Some (6, [7, 1], [], 1, 7, 3, WAIT_SEGMENT)
   \<and> (7 + 1) mod 2 ^ r_n_bits idle_receiver \<noteq> (1::int)"
  by code_simp

section \<open>Segments of the wrong type\<close>

text \<open>
  C9. A sender that receives a segment of type DATA leaves its state as it is and
  sends nothing; back in SEND, a sender that was resting there rests again. A
  receiver that receives a segment of type ACK (not dropped by the loss simulator)
  leaves its state as it is, sends nothing and waits for the next segment.
\<close>

theorem C9_wrong_type_discarded:
  "(ptype pd = 0 \<longrightarrow>
      ACK_IN s pd = Inr (s, []) \<and>
      (SEND s = (s, [], ST_SEND) \<longrightarrow> sender_step s (Recv pd) = Inr (s, [], ST_SEND))) \<and>
   (ptype pa = 1 \<longrightarrow> DATA_IN r pa False ack_lost = Some (r, [], WAIT_SEGMENT))"
  by (simp add: ACK_IN_def sender_step_def DATA_IN_def)

theorem C9_wrong_type_discarded_witness:
  "ACK_IN full_state (data_segment 0 5 2 ''z'') = Inr (full_state, []) \<and>
   sender_step full_state (Recv (data_segment 0 5 2 ''z'')) = Inr (full_state, [], ST_SEND) \<and>
   DATA_IN idle_receiver (ack_segment 1 4) False False = Some (idle_receiver, [], WAIT_SEGMENT)"
proof -
  have d: "ptype (data_segment 0 5 2 ''z'') = 0" by (simp add: data_segment_def)
  have a: "ptype (ack_segment 1 4) = 1" by (simp add: ack_segment_def)
  have rest: "SEND full_state = (full_state, [], ST_SEND)"
    by (simp add: SEND.simps full_state_def)
  from C9_wrong_type_discarded [of "data_segment 0 5 2 ''z''" full_state "ack_segment 1 4" idle_receiver False]
    d a rest show ?thesis by simp
qed

section \<open>Processing the same ACK twice\<close>

lemma evict_idem: "evict n rw ack (evict n rw ack b) = evict n rw ack b"
  by (simp add: evict_filter)

lemma selective_repeat_frame:
  "selective_repeat s ack = Inr (s', out) \<Longrightarrow> forget_count s' = forget_count s"
  "selective_repeat s ack = Inl (e, s') \<Longrightarrow> forget_count s' = forget_count s"
  by (auto simp: selective_repeat_def forget_count_def Let_def split: if_splits option.splits)

lemma selective_ack_frame:
  "selective_ack s pkt = Inr (s', out) \<Longrightarrow> s' = s"
  "selective_ack s pkt = Inl (e, s') \<Longrightarrow> s' = s"
  by (auto simp: selective_ack_def split: if_splits sum.splits)

lemma retransmit_frame:
  "retransmit_on_ack s pkt = Inr (s', out) \<Longrightarrow> forget_count s' = forget_count s"
  "retransmit_on_ack s pkt = Inl (e, s') \<Longrightarrow> forget_count s' = forget_count s"
  by (auto simp: retransmit_on_ack_def split: if_splits dest: selective_repeat_frame selective_ack_frame)

lemma retransmit_frame_no_sr:
  "Q_4_2 s \<noteq> 1 \<Longrightarrow> retransmit_on_ack s pkt = Inr (s', out) \<Longrightarrow> s' = s"
  "Q_4_2 s \<noteq> 1 \<Longrightarrow> retransmit_on_ack s pkt = Inl (e, s') \<Longrightarrow> s' = s"
  by (auto simp: retransmit_on_ack_def split: if_splits dest: selective_ack_frame)

lemma forget_count_fields:
  "forget_count a = forget_count b \<Longrightarrow>
     win a = win b \<and> n_bits a = n_bits b \<and> q a = q b \<and> buffer a = buffer b \<and>
     current a = current b \<and> unack a = unack b \<and> receiver_win a = receiver_win b \<and>
     Q_4_2 a = Q_4_2 b \<and> SACK a = SACK b \<and> Q_4_4 a = Q_4_4 b"
  by (cases a, cases b) (simp add: forget_count_def)

lemma adopt_fields:
  "win (adopt s p) = win s" "n_bits (adopt s p) = n_bits s" "q (adopt s p) = q s"
  "buffer (adopt s p) = buffer s" "current (adopt s p) = current s" "unack (adopt s p) = unack s"
  "receiver_win (adopt s p) = pwin p" "Q_4_2 (adopt s p) = Q_4_2 s" "Q_4_4 (adopt s p) = Q_4_4 s"
  "count_acks (adopt s p) = count_acks s"
  "SACK (adopt s p) = (if options p = 0 then 0 else if options p = 1 then 1 else SACK s)"
  by (simp_all add: adopt_def Let_def)

lemma same_receiver_win: "receiver_win t = w \<Longrightarrow> t\<lparr>receiver_win := w\<rparr> = t"
  by (cases t) simp

lemma same_SACK: "SACK t = v \<Longrightarrow> t\<lparr>SACK := v\<rparr> = t"
  by (cases t) simp

lemma adopt_fixed:
  assumes "receiver_win t = pwin p"
    and "options p = 0 \<longrightarrow> SACK t = 0" and "options p = 1 \<longrightarrow> SACK t = 1"
  shows "adopt t p = t"
  using assms by (simp add: adopt_def Let_def same_receiver_win same_SACK)

lemma ACK_IN_ack:
  assumes "ptype pkt \<noteq> 0" and "ACK_IN s pkt = Inr (s1, out1)"
  shows "adopt s1 pkt = s1 \<and> unack s1 = num pkt \<and> Q_4_2 s1 = Q_4_2 s \<and>
         buffer s1 = evict (n_bits s1) (receiver_win s1) (num pkt) (buffer s1)"
proof -
  from assms obtain s3 where
    r1: "retransmit_on_ack (adopt s pkt) pkt = Inr (s3, out1)" and
    s1: "s1 = s3\<lparr>unack := num pkt,
                 buffer := evict (n_bits s3) (receiver_win s3) (num pkt) (buffer s3)\<rparr>"
    by (auto simp: ACK_IN_def split: sum.splits)
  note f = forget_count_fields[OF retransmit_frame(1)[OF r1]]
  have "adopt s1 pkt = s1"
    by (rule adopt_fixed) (use f s1 in \<open>auto simp: adopt_fields\<close>)
  moreover have "buffer s1 = evict (n_bits s1) (receiver_win s1) (num pkt) (buffer s1)"
    using s1 by (simp add: evict_idem)
  ultimately show ?thesis using s1 f by (simp add: adopt_fields)
qed

text \<open>
  The handler alone, run twice in a row on the same ACK with no pass through SEND in
  between, leaves \<open>unack\<close>, \<open>current\<close> and the buffer as the first run left them,
  whether the second run returns or raises; every other field but the duplicate-ack
  counter is unchanged as well (\<open>forget_count\<close>).
\<close>

lemma ACK_IN_twice:
  assumes "ACK_IN s pkt = Inr (s1, out1)"
  shows "case ACK_IN s1 pkt of
           Inr (s2, out2) \<Rightarrow>
             unack s2 = unack s1 \<and> current s2 = current s1 \<and> buffer s2 = buffer s1 \<and>
             forget_count s2 = forget_count s1 \<and> (Q_4_2 s \<noteq> 1 \<longrightarrow> s2 = s1)
         | Inl (e, s2) \<Rightarrow>
             unack s2 = unack s1 \<and> current s2 = current s1 \<and> buffer s2 = buffer s1 \<and>
             forget_count s2 = forget_count s1 \<and> (Q_4_2 s \<noteq> 1 \<longrightarrow> s2 = s1)"
proof (cases "ptype pkt = 0")
  case True
  with assms show ?thesis by (simp add: ACK_IN_def)
next
  case False
  from ACK_IN_ack[OF False assms] have
    a: "adopt s1 pkt = s1" and u: "unack s1 = num pkt" and q: "Q_4_2 s1 = Q_4_2 s" and
    b: "buffer s1 = evict (n_bits s1) (receiver_win s1) (num pkt) (buffer s1)"
    by simp_all
  show ?thesis
  proof (cases "retransmit_on_ack s1 pkt")
    case (Inl err)
    obtain e s4 where err: "err = (e, s4)" by (cases err)
    from Inl err have r: "retransmit_on_ack s1 pkt = Inl (e, s4)" by simp
    from retransmit_frame(2)[OF r] have fc: "forget_count s4 = forget_count s1" .
    have "Q_4_2 s \<noteq> 1 \<longrightarrow> s4 = s1" using retransmit_frame_no_sr(2)[OF _ r] q by simp
    with fc forget_count_fields[OF fc] r False a show ?thesis
      by (simp add: ACK_IN_def)
  next
    case (Inr res)
    obtain s4 out2 where res: "res = (s4, out2)" by (cases res)
    from Inr res have r: "retransmit_on_ack s1 pkt = Inr (s4, out2)" by simp
    from retransmit_frame(1)[OF r] have fc: "forget_count s4 = forget_count s1" .
    note f = forget_count_fields[OF fc]
    let ?s2 = "s4\<lparr>unack := num pkt,
                   buffer := evict (n_bits s4) (receiver_win s4) (num pkt) (buffer s4)\<rparr>"
    have s2: "ACK_IN s1 pkt = Inr (?s2, out2)"
      using False a r by (simp add: ACK_IN_def)
    have ev: "evict (n_bits s4) (receiver_win s4) (num pkt) (buffer s4) = buffer s1"
      using f b by simp
    have fc2: "forget_count ?s2 = forget_count s1"
      using fc u ev f by (cases s4, cases s1) (simp add: forget_count_def)
    have "Q_4_2 s \<noteq> 1 \<longrightarrow> ?s2 = s1"
    proof
      assume "Q_4_2 s \<noteq> 1"
      with retransmit_frame_no_sr(1)[OF _ r] q have "s4 = s1" by simp
      with u ev show "?s2 = s1" by simp
    qed
    with fc2 forget_count_fields[OF fc2] ev u show ?thesis
      by (simp add: s2)
  qed
qed

lemma ACK_IN_twice_example:
  "ACK_IN sr_state (ack_segment 1 2)
     = Inr (sr_state\<lparr>unack := 1, buffer := [(1, ''b'')], count_acks := (0, 1)\<rparr>, []) \<and>
   ACK_IN (sr_state\<lparr>unack := 1, buffer := [(1, ''b'')], count_acks := (0, 1)\<rparr>) (ack_segment 1 2)
     = Inr (sr_state\<lparr>unack := 1, buffer := [(1, ''b'')], count_acks := (1, 1)\<rparr>, [])"
proof -
  have h: "ACK_IN sr_state (ack_segment 1 2)
     = Inr (sr_state\<lparr>unack := 1, buffer := [(1, ''b'')], count_acks := (0, 1)\<rparr>, [])"
    by (simp add: sr_state_def ACK_IN_def adopt_def retransmit_on_ack_def selective_repeat_def
        count_ack_def ack_segment_def evict_def evict_key_def upto.simps)
  from ACK_IN_twice[OF h] h show ?thesis
    by (simp add: sr_state_def ACK_IN_def adopt_def retransmit_on_ack_def selective_repeat_def
        count_ack_def ack_segment_def evict_def evict_key_def upto.simps)
qed

section \<open>Selective Repeat and SACK retransmission\<close>

text \<open>
  What the Selective-Repeat branch does when the lookup succeeds. With \<open>(c, v)\<close> the
  counter before an ACK: an ACK whose number equals \<open>v\<close> makes the count \<open>c + 1\<close>,
  any other ACK makes the counter \<open>(0, ack)\<close>; when the count so reached is at least
  2 and \<open>pl\<close> is the buffer's entry for \<open>ack\<close>, the handler sends that one segment as
  DATA and the counter becomes \<open>(0, -1)\<close>; otherwise it sends nothing.
\<close>

lemma selective_repeat_step:
  assumes "ptype pkt \<noteq> 0" and "Q_4_2 s = 1" and "count_acks s = (c, v)"
    and "num pkt = v \<and> c + 1 \<ge> 2 \<longrightarrow> map_of (buffer s) (num pkt) = Some pl"
  shows "\<exists>s'. ACK_IN s pkt =
            Inr (s', if num pkt = v \<and> c + 1 \<ge> 2
                     then [data_segment 0 (num pkt) (win s) pl] else []) \<and>
          count_acks s' = (if num pkt = v \<and> c + 1 \<ge> 2 then (0, -1)
                           else if num pkt = v then (c + 1, v) else (0, num pkt))"
  using assms
  by (auto simp: ACK_IN_def retransmit_on_ack_def selective_repeat_def count_ack_def adopt_def Let_def)

lemma selective_repeat_step_example:
  "\<exists>s'. ACK_IN sr_state (ack_segment 0 2) = Inr (s', [data_segment 0 0 2 ''a'']) \<and>
        count_acks s' = (0, -1)"
proof -
  have "\<exists>s'. ACK_IN sr_state (ack_segment 0 2) =
            Inr (s', if num (ack_segment 0 2) = 0 \<and> (1::int) + 1 \<ge> 2
                     then [data_segment 0 (num (ack_segment 0 2)) (win sr_state) ''a''] else []) \<and>
          count_acks s' = (if num (ack_segment 0 2) = 0 \<and> (1::int) + 1 \<ge> 2 then (0, -1)
                           else if num (ack_segment 0 2) = 0 then (1 + 1, 0) else (0, num (ack_segment 0 2)))"
    by (rule selective_repeat_step) (simp_all add: sr_state_def ack_segment_def)
  then show ?thesis by (simp add: ack_segment_def sr_state_def)
qed

text \<open>
  Three ACKs in a row with a number \<open>a\<close> other than the recorded one bring the count
  to 0, 1 and 2: the count reaches 2 on the third.
\<close>

lemma count_ack_third:
  "v \<noteq> a \<Longrightarrow> count_ack (c, v) a = (0, a) \<and> count_ack (count_ack (c, v) a) a = (1, a) \<and>
     count_ack (count_ack (count_ack (c, v) a) a) a = (2, a)"
  by (simp add: count_ack_def)

text \<open>
  Between handlers the count is 0 or 1: a handler that returns leaves it there, so a
  count of at least 2 inside the handler is a count of exactly 2.
\<close>

lemma count_stays_below_two:
  assumes "fst (count_acks s) \<le> 1" and "ACK_IN s pkt = Inr (s', out)"
  shows "fst (count_acks s') \<le> 1"
  using assms
  by (auto simp: ACK_IN_def retransmit_on_ack_def selective_repeat_def selective_ack_def
      count_ack_def adopt_def Let_def split: if_splits option.splits sum.splits)

lemma py_range_map: "py_range a b = map (\<lambda>j. a + int j) [0..<nat (b - a)]"
proof (rule nth_equalityI)
  show "length (py_range a b) = length (map (\<lambda>j. a + int j) [0..<nat (b - a)])"
    by (simp add: py_range_def)
next
  fix i assume "i < length (py_range a b)"
  then have "i < nat (b - a)" "a + int i \<le> b - 1" by (simp_all add: py_range_def)
  then show "py_range a b ! i = map (\<lambda>j. a + int j) [0..<nat (b - a)] ! i"
    by (simp add: py_range_def)
qed

lemma no_wrap_block:
  assumes "0 \<le> l" "0 \<le> len" "l + len < 2 ^ n"
  shows "py_range l (l + len) = mod_block n (l, len)"
proof -
  have "map (\<lambda>j. l + int j) [0..<nat len] = map (\<lambda>j. (l + int j) mod 2 ^ n) [0..<nat len]"
  proof (rule map_cong[OF refl])
    fix j assume "j \<in> set [0..<nat len]"
    then have "0 \<le> l + int j" "l + int j < 2 ^ n" using assms by auto
    then show "l + int j = (l + int j) mod 2 ^ n" by simp
  qed
  then show ?thesis by (simp add: py_range_map mod_block_def)
qed

lemma wrap_block:
  assumes "0 \<le> l" "l < 2 ^ n" "len \<le> 2 ^ n" "2 ^ n \<le> l + len"
  shows "py_range l (2 ^ n) @ py_range 0 (len - int (length (py_range l (2 ^ n))))
           = mod_block n (l, len)" (is "?L = ?R")
proof (rule nth_equalityI)
  have len1: "length (py_range l (2 ^ n)) = nat (2 ^ n - l)" by (simp add: py_range_def)
  show eq: "length ?L = length ?R" using assms by (simp add: len1 mod_block_def py_range_def)
  fix i assume "i < length ?L"
  with eq have il: "i < nat len" by (simp add: mod_block_def)
  show "?L ! i = ?R ! i"
  proof (cases "i < nat (2 ^ n - l)")
    case True
    then have "(l + int i) mod 2 ^ n = l + int i" using assms by simp
    moreover have "?L ! i = l + int i"
      using True by (simp add: nth_append len1) (simp add: py_range_map)
    ultimately show ?thesis using il by (simp add: mod_block_def)
  next
    case False
    define k where "k = i - nat (2 ^ n - l)"
    have k: "int k = l + int i - 2 ^ n" using False assms by (simp add: k_def)
    have kl: "k < nat (len - int (nat (2 ^ n - l)))" using False il assms by (simp add: k_def)
    have b1: "0 \<le> l + int i - 2 ^ n" and b2: "l + int i - 2 ^ n < 2 ^ n"
      using False assms il by auto
    have "(l + int i) mod 2 ^ n = ((l + int i - 2 ^ n) + 2 ^ n) mod 2 ^ n" by simp
    also have "\<dots> = (l + int i - 2 ^ n) mod 2 ^ n" by (rule mod_add_self2)
    also have "\<dots> = l + int i - 2 ^ n" using b1 b2 by (rule mod_pos_pos_trivial)
    finally have m: "(l + int i) mod 2 ^ n = l + int i - 2 ^ n" .
    have "?L ! i = py_range 0 (len - int (nat (2 ^ n - l))) ! k"
      using False by (simp add: nth_append len1 k_def)
    also have "\<dots> = int k" using kl by (simp add: py_range_map)
    finally show ?thesis using il m k by (simp add: mod_block_def)
  qed
qed

lemma block_ranges_modular:
  assumes "0 \<le> l" "l < 2 ^ n" "0 \<le> len" "len \<le> 2 ^ n"
  shows "\<exists>rs. block_ranges n (Some l) (Some len) = Inr rs \<and> concat rs = mod_block n (l, len)"
  using assms no_wrap_block[of l len n] wrap_block[of l n len]
  by (simp add: block_ranges_def)


lemma rec_acks_modular:
  "list_all (in_seq_space n) bs \<Longrightarrow>
     \<exists>rss. rec_acks_of n (map (\<lambda>b. (Some (fst b), Some (snd b))) bs) = Inr rss \<and>
           concat rss = concat (map (mod_block n) bs)"
proof (induction bs)
  case Nil
  then show ?case by simp
next
  case (Cons b bs)
  then obtain rss where rss: "rec_acks_of n (map (\<lambda>b. (Some (fst b), Some (snd b))) bs) = Inr rss"
      "concat rss = concat (map (mod_block n) bs)" by auto
  from Cons.prems have "in_seq_space n b" by simp
  then obtain rs where rs: "block_ranges n (Some (fst b)) (Some (snd b)) = Inr rs"
      "concat rs = mod_block n b"
    using block_ranges_modular[of "fst b" n "snd b"] by (auto simp: in_seq_space_def)
  with rss show ?case by simp
qed

lemma sack_blocks_carried:
  assumes "blen pkt = 1 \<or> blen pkt = 2 \<or> blen pkt = 3" and "hlen pkt \<ge> 6 + 3 * blen pkt"
  shows "get_blen pkt = Some (blen pkt)"
    and "sack_blocks pkt = map (\<lambda>b. (Some (fst b), Some (snd b))) (carried_blocks pkt)"
  using assms
  by (auto simp: sack_blocks_def carried_blocks_def cond_field_def get_blen_def
      get_left_1_def get_length_1_def get_left_2_def get_length_2_def
      get_left_3_def get_length_3_def)

lemma index_of_member: "x \<in> set xs \<Longrightarrow> \<exists>i. index_of xs x = Some i"
  by (induction xs) auto

text \<open>
  What the SACK branch does when the lookups succeed. For an ACK that carries 1, 2
  or 3 blocks (with the header length that goes with them, each block in the
  sequence space): with \<open>R\<close> the modular ranges of the blocks, flattened, and \<open>L\<close>
  the buffer in insertion order, if \<open>R\<close> is not empty and its last number is a key
  of \<open>L\<close>, at its first index \<open>final_idx\<close>, the handler sends as DATA exactly the
  entries of \<open>L\<close> before \<open>final_idx\<close> whose key is not in \<open>R\<close>, in the order of \<open>L\<close>.
\<close>

lemma sack_retransmit_selected:
  assumes ack: "ptype pkt \<noteq> 0"
    and nsr: "Q_4_2 s \<noteq> 1"
    and mode: "SACK (adopt s pkt) = 1"
    and bl: "blen pkt = 1 \<or> blen pkt = 2 \<or> blen pkt = 3"
    and hl: "hlen pkt \<ge> 6 + 3 * blen pkt"
    and wf: "list_all (in_seq_space (n_bits s)) (carried_blocks pkt)"
    and ne: "sacked (n_bits s) pkt \<noteq> []"
    and mem: "last (sacked (n_bits s) pkt) \<in> set (map fst (buffer s))"
  shows "\<exists>final_idx s'.
           index_of (map fst (buffer s)) (last (sacked (n_bits s) pkt)) = Some final_idx \<and>
           ACK_IN s pkt =
             Inr (s', map (\<lambda>(k, pl). data_segment 1 k (win s) pl)
                        (filter (\<lambda>(k, pl). k \<notin> set (sacked (n_bits s) pkt))
                           (take final_idx (buffer s))))"
proof -
  let ?a = "adopt s pkt"
  from index_of_member[OF mem] obtain i where
    i: "index_of (map fst (buffer s)) (last (sacked (n_bits s) pkt)) = Some i" ..
  from rec_acks_modular[OF wf] obtain rss where
    rss: "rec_acks_of (n_bits s) (sack_blocks pkt) = Inr rss"
         "concat rss = sacked (n_bits s) pkt"
    by (auto simp: sack_blocks_carried(2)[OF bl hl] sacked_def)
  have sr: "sack_retransmit ?a rss =
      Inr (map (\<lambda>(k, pl). data_segment 1 k (win s) pl)
             (filter (\<lambda>(k, pl). k \<notin> set (sacked (n_bits s) pkt)) (take i (buffer s))))"
    using rss(2) ne i by (simp add: sack_retransmit_def adopt_fields)
  have "selective_ack ?a pkt =
      Inr (?a, map (\<lambda>(k, pl). data_segment 1 k (win s) pl)
             (filter (\<lambda>(k, pl). k \<notin> set (sacked (n_bits s) pkt)) (take i (buffer s))))"
    using sack_blocks_carried(1)[OF bl hl] bl rss(1) sr
    by (auto simp: selective_ack_def adopt_fields)
  then show ?thesis using ack nsr mode i
    by (simp add: ACK_IN_def retransmit_on_ack_def adopt_fields)
qed


lemma sack_retransmit_selected_example:
  "\<exists>s'. ACK_IN sack_state sack_ack
           = Inr (s', [data_segment 1 6 4 ''g'', data_segment 1 0 4 ''i''])"
proof -
  have cb: "carried_blocks sack_ack = [(7, 1), (1, 1)]"
    by (simp add: carried_blocks_def sack_ack_def)
  have R: "sacked (n_bits sack_state) sack_ack = [7, 1]"
    by (simp add: sacked_def cb mod_block_def sack_state_def)
  have "\<exists>final_idx s'.
           index_of (map fst (buffer sack_state)) (last (sacked (n_bits sack_state) sack_ack))
             = Some final_idx \<and>
           ACK_IN sack_state sack_ack =
             Inr (s', map (\<lambda>(k, pl). data_segment 1 k (win sack_state) pl)
                        (filter (\<lambda>(k, pl). k \<notin> set (sacked (n_bits sack_state) sack_ack))
                           (take final_idx (buffer sack_state))))"
  proof (rule sack_retransmit_selected)
    show "list_all (in_seq_space (n_bits sack_state)) (carried_blocks sack_ack)"
      by (simp add: cb in_seq_space_def sack_state_def)
    show "sacked (n_bits sack_state) sack_ack \<noteq> []" by (simp add: R)
    show "last (sacked (n_bits sack_state) sack_ack) \<in> set (map fst (buffer sack_state))"
      by (simp add: R) (simp add: sack_state_def)
  qed (simp_all add: sack_ack_def sack_state_def adopt_def)
  then show ?thesis
    by (simp add: R) (auto simp: sack_state_def)
qed

section \<open>The receiver's window invariant\<close>

lemma dist_pos:
  fixes k e M :: int
  assumes "0 \<le> k" "k < M" "0 \<le> e" "e < M" "k \<noteq> e"
  shows "1 \<le> (k - e) mod M"
proof -
  have M: "0 < M" using assms by simp
  have "(k - e) mod M \<noteq> 0"
  proof
    assume "(k - e) mod M = 0"
    then have "M dvd (k - e)" by (simp add: dvd_eq_mod_eq_0)
    moreover have "\<bar>k - e\<bar> < M" using assms by simp
    ultimately have "k - e = 0" using zdvd_imp_le[of M "k - e"] zdvd_imp_le[of M "e - k"]
      by (smt (verit) dvd_minus_iff minus_diff_eq)
    with assms show False by simp
  qed
  moreover have "0 \<le> (k - e) mod M" using M by simp
  ultimately show ?thesis by simp
qed

lemma dist_step:
  fixes k e M :: int
  assumes "0 < M" "1 \<le> (k - e) mod M"
  shows "(k - (e + 1) mod M) mod M = (k - e) mod M - 1"
proof -
  have "(k - (e + 1) mod M) mod M = (k - (e + 1)) mod M" by (simp add: mod_diff_right_eq)
  also have "\<dots> = ((k - e) - 1) mod M" by (simp add: algebra_simps)
  also have "\<dots> = ((k - e) mod M - 1) mod M" by (simp add: mod_diff_left_eq)
  also have "\<dots> = (k - e) mod M - 1"
  proof (rule mod_pos_pos_trivial)
    show "0 \<le> (k - e) mod M - 1" using assms by simp
    have "(k - e) mod M < M" using assms by simp
    then show "(k - e) mod M - 1 < M" by simp
  qed
  finally show ?thesis .
qed


lemma deliver_buffered_fields:
  "r_win (deliver_buffered i r) = r_win r"
  "r_n_bits (deliver_buffered i r) = r_n_bits r"
  "nxt (deliver_buffered i r) = (nxt r + 1) mod 2 ^ r_n_bits r"
  "i < length (buffer_seq r) \<Longrightarrow>
     buffer_seq (deliver_buffered i r) = remove1 (buffer_seq r ! i) (buffer_seq r)"
  "r_buffer (deliver_buffered i r) = remove1 (r_buffer r ! i) (r_buffer r)"
  "buffer_size (deliver_buffered i r) = buffer_size r - 1"
  by (simp_all add: deliver_buffered_def Let_def)

lemma deliver_buffered_inv:
  assumes wf: "wf_buffer r" and w: "within r 0 h"
    and i: "i < length (buffer_seq r)" "i < length (r_buffer r)"
    and m: "buffer_seq r ! i = nxt r"
  shows "wf_buffer (deliver_buffered i r)" and "within (deliver_buffered i r) 0 h"
    and "length (buffer_seq (deliver_buffered i r)) < length (buffer_seq r)"
proof -
  let ?M = "2 ^ r_n_bits r :: int"
  let ?r = "deliver_buffered i r"
  have M: "0 < ?M" by simp
  have mem: "nxt r \<in> set (buffer_seq r)" using i m by (metis nth_mem)
  have memb: "r_buffer r ! i \<in> set (r_buffer r)" using i by simp
  have seq: "buffer_seq ?r = remove1 (nxt r) (buffer_seq r)"
    using i m by (simp add: deliver_buffered_fields)
  have len: "length (buffer_seq ?r) = length (buffer_seq r) - 1"
    using mem by (simp add: seq length_remove1)
  have pos: "0 < length (buffer_seq r)" using i(1) by (cases "buffer_seq r") simp_all
  show "length (buffer_seq ?r) < length (buffer_seq r)" using len pos by simp
  have set: "set (buffer_seq ?r) = set (buffer_seq r) - {nxt r}"
    using wf by (simp add: seq wf_buffer_def)
  show "wf_buffer ?r"
    unfolding wf_buffer_def
  proof (intro conjI)
    have "int (length (buffer_seq ?r)) = int (length (buffer_seq r)) - 1"
      using pos len by linarith
    then show "buffer_size ?r = int (length (buffer_seq ?r))"
      using wf by (simp add: deliver_buffered_fields wf_buffer_def)
    show "length (r_buffer ?r) = length (buffer_seq ?r)"
      using wf memb by (simp add: len deliver_buffered_fields length_remove1 wf_buffer_def)
    show "distinct (buffer_seq ?r)" using wf by (simp add: seq wf_buffer_def)
    show "0 \<le> nxt ?r" by (simp add: deliver_buffered_fields)
    show "nxt ?r < 2 ^ r_n_bits ?r" by (simp add: deliver_buffered_fields)
    show "list_all (\<lambda>k. 0 \<le> k \<and> k < 2 ^ r_n_bits ?r) (buffer_seq ?r)"
      using wf by (auto simp: list_all_iff set deliver_buffered_fields wf_buffer_def)
  qed
  show "within ?r 0 h"
    unfolding within_def list_all_iff
  proof
    fix k assume "k \<in> set (buffer_seq ?r)"
    then have k: "k \<in> set (buffer_seq r)" "k \<noteq> nxt r" by (simp_all add: set)
    with wf have "0 \<le> k" "k < ?M" "0 \<le> nxt r" "nxt r < ?M"
      by (auto simp: wf_buffer_def list_all_iff)
    with k have d: "1 \<le> (k - nxt r) mod ?M" by (intro dist_pos) auto
    from k w have "(k - nxt r) mod ?M \<le> h" by (auto simp: within_def list_all_iff)
    with dist_step[OF M d] d
    show "0 \<le> (k - nxt ?r) mod 2 ^ r_n_bits ?r \<and> (k - nxt ?r) mod 2 ^ r_n_bits ?r \<le> h"
      by (simp add: deliver_buffered_fields)
  qed
qed

lemma drain_for_inv:
  "wf_buffer r \<Longrightarrow> within r 0 h \<Longrightarrow>
     wf_buffer (drain_for i r) \<and> within (drain_for i r) 0 h \<and>
     r_win (drain_for i r) = r_win r \<and> r_n_bits (drain_for i r) = r_n_bits r \<and>
     length (buffer_seq (drain_for i r)) \<le> length (buffer_seq r)"
proof (induction i r rule: drain_for.induct)
  case (1 i r)
  show ?case
  proof (cases "i < length (buffer_seq r) \<and> i < length (r_buffer r)")
    case False
    then have "drain_for i r = r" by (auto simp: drain_for.simps[of i r])
    then show ?thesis using "1.prems" by simp
  next
    case True
    show ?thesis
    proof (cases "buffer_seq r ! i = nxt r")
      case m: True
      from deliver_buffered_inv[OF "1.prems" _ _ m] True
      have a: "wf_buffer (deliver_buffered i r)" "within (deliver_buffered i r) 0 h"
        "length (buffer_seq (deliver_buffered i r)) < length (buffer_seq r)" by simp_all
      from "1.IH"(1)[OF True m a(1) a(2)] a(3) True m show ?thesis
        by (simp add: drain_for.simps[of i r] deliver_buffered_fields(1,2))
    next
      case m: False
      from "1.IH"(2)[OF True m "1.prems"] True m show ?thesis
        by (simp add: drain_for.simps[of i r])
    qed
  qed
qed

lemma drain_for_shrinks:
  "wf_buffer r \<Longrightarrow> within r 0 h \<Longrightarrow> nxt r \<in> set (drop i (buffer_seq r)) \<Longrightarrow>
     length (buffer_seq (drain_for i r)) < length (buffer_seq r)"
proof (induction i r rule: drain_for.induct)
  case (1 i r)
  from "1.prems"(3) have il: "i < length (buffer_seq r)"
    by (cases "i < length (buffer_seq r)") auto
  with "1.prems"(1) have True: "i < length (buffer_seq r) \<and> i < length (r_buffer r)"
    by (simp add: wf_buffer_def)
  show ?case
  proof (cases "buffer_seq r ! i = nxt r")
    case m: True
    from deliver_buffered_inv[OF "1.prems"(1,2) _ _ m] True
    have a: "wf_buffer (deliver_buffered i r)" "within (deliver_buffered i r) 0 h"
      "length (buffer_seq (deliver_buffered i r)) < length (buffer_seq r)" by simp_all
    from drain_for_inv[OF a(1) a(2), of "i + 1"] a(3) True m show ?thesis
      by (simp add: drain_for.simps[of i r])
  next
    case m: False
    have "drop i (buffer_seq r) = buffer_seq r ! i # drop (Suc i) (buffer_seq r)"
      using il by (simp add: Cons_nth_drop_Suc)
    with "1.prems"(3) m have "nxt r \<in> set (drop (i + 1) (buffer_seq r))" by auto
    from "1.IH"(2)[OF True m "1.prems"(1,2) this] True m show ?thesis
      by (simp add: drain_for.simps[of i r])
  qed
qed


lemma drain_while_inv:
  "wf_buffer r \<Longrightarrow> within r 0 h \<Longrightarrow>
     \<exists>r'. drain_while r = Some r' \<and> wf_buffer r' \<and> within r' 0 h \<and>
          nxt r' \<notin> set (buffer_seq r') \<and> r_win r' = r_win r \<and> r_n_bits r' = r_n_bits r"
proof (induction "length (buffer_seq r)" arbitrary: r rule: less_induct)
  case less
  show ?case
  proof (cases "buffer_size r > 0 \<and> nxt r \<in> set (buffer_seq r)")
    case True
    then have u: "drain_while r = drain_while (drain_for 0 r)"
      by (subst drain_while.simps) simp
    from True have "nxt r \<in> set (drop 0 (buffer_seq r))" by simp
    from drain_for_shrinks[OF less.prems this]
    have sh: "length (buffer_seq (drain_for 0 r)) < length (buffer_seq r)" .
    from drain_for_inv[OF less.prems, of 0]
    have inv: "wf_buffer (drain_for 0 r)" "within (drain_for 0 r) 0 h"
      "r_win (drain_for 0 r) = r_win r" "r_n_bits (drain_for 0 r) = r_n_bits r" by simp_all
    from less.hyps[OF sh inv(1) inv(2)] inv(3,4) u show ?thesis by simp
  next
    case False
    then have u: "drain_while r = Some r"
      by (subst drain_while.simps) auto
    have "nxt r \<notin> set (buffer_seq r)"
    proof (cases "buffer_size r > 0")
      case True
      with False show ?thesis by simp
    next
      case False
      with less.prems(1) have "buffer_seq r = []" by (simp add: wf_buffer_def)
      then show ?thesis by simp
    qed
    with u less.prems show ?thesis by simp
  qed
qed

lemma within_drained:
  assumes "wf_buffer r" "within r 0 h" "nxt r \<notin> set (buffer_seq r)"
  shows "within r 1 (h + 1)"
  unfolding within_def list_all_iff
proof
  fix k assume k: "k \<in> set (buffer_seq r)"
  with assms(3) have "k \<noteq> nxt r" by auto
  moreover from k assms(1) have "0 \<le> k" "k < 2 ^ r_n_bits r" "0 \<le> nxt r" "nxt r < 2 ^ r_n_bits r"
    by (auto simp: wf_buffer_def list_all_iff)
  ultimately have "1 \<le> (k - nxt r) mod 2 ^ r_n_bits r" by (intro dist_pos) auto
  moreover from k assms(2) have "(k - nxt r) mod 2 ^ r_n_bits r \<le> h"
    by (auto simp: within_def list_all_iff)
  ultimately show "1 \<le> (k - nxt r) mod 2 ^ r_n_bits r \<and> (k - nxt r) mod 2 ^ r_n_bits r \<le> h + 1"
    by simp
qed

lemma deliver_inv:
  assumes "receiver_inv r"
  shows "\<exists>r'. deliver r pl = Some r' \<and> receiver_inv r' \<and> r_n_bits r' = r_n_bits r"
proof -
  let ?M = "2 ^ r_n_bits r :: int"
  let ?r1 = "r\<lparr>out_file := out_file r @ pl, nxt := (nxt r + 1) mod 2 ^ r_n_bits r\<rparr>"
  from assms have wf: "wf_buffer r" and w: "within r 1 (r_win r - 1)"
    by (simp_all add: receiver_inv_def)
  have wf1: "wf_buffer ?r1" using wf by (simp add: wf_buffer_def)
  have w1: "within ?r1 0 (r_win r - 2)"
    unfolding within_def list_all_iff
  proof
    fix k assume "k \<in> set (buffer_seq ?r1)"
    then have "1 \<le> (k - nxt r) mod ?M" "(k - nxt r) mod ?M \<le> r_win r - 1"
      using w by (auto simp: within_def list_all_iff)
    with dist_step[of ?M k "nxt r"]
    show "0 \<le> (k - nxt ?r1) mod 2 ^ r_n_bits ?r1 \<and>
          (k - nxt ?r1) mod 2 ^ r_n_bits ?r1 \<le> r_win r - 2" by simp
  qed
  from drain_while_inv[OF wf1 w1] obtain r' where
    r': "drain_while ?r1 = Some r'" "wf_buffer r'" "within r' 0 (r_win r - 2)"
        "nxt r' \<notin> set (buffer_seq r')" "r_win r' = r_win r" "r_n_bits r' = r_n_bits r"
    by auto
  from within_drained[OF r'(2,3,4)] r'(5) have "within r' 1 (r_win r' - 1)" by simp
  with r' show ?thesis by (simp add: deliver_def receiver_inv_def)
qed

lemma store_inv:
  assumes inv: "receiver_inv r" and n: "0 \<le> n" "n < 2 ^ r_n_bits r"
  shows "receiver_inv (store r n pl)" and "r_n_bits (store r n pl) = r_n_bits r"
proof -
  let ?M = "2 ^ r_n_bits r :: int"
  from inv have wf: "wf_buffer r" and w: "within r 1 (r_win r - 1)"
    by (simp_all add: receiver_inv_def)
  show "r_n_bits (store r n pl) = r_n_bits r" by (simp add: store_def Let_def)
  have below: "(n - nxt r) mod ?M = n - nxt r + ?M" if "n < nxt r"
  proof -
    have "(n - nxt r) mod ?M = ((n - nxt r + ?M) + ?M * (-1)) mod ?M" by simp
    also have "\<dots> = (n - nxt r + ?M) mod ?M" by (rule mod_mult_self2)
    also have "\<dots> = n - nxt r + ?M"
      using that n wf by (intro mod_pos_pos_trivial) (auto simp: wf_buffer_def)
    finally show ?thesis .
  qed
  have above: "(n - nxt r) mod ?M = n - nxt r" if "\<not> n < nxt r"
    using that n wf by (intro mod_pos_pos_trivial) (auto simp: wf_buffer_def)
  show "receiver_inv (store r n pl)"
    using wf w n below above
    by (auto simp: store_def Let_def receiver_inv_def wf_buffer_def within_def)
qed

lemma end_flags_inv:
  "receiver_inv (r\<lparr>end_receiver := a, end_num := b\<rparr>) = receiver_inv r"
  by (simp add: receiver_inv_def wf_buffer_def within_def)

lemma DATA_IN_inv:
  assumes inv: "receiver_inv r" and n: "numbered (r_n_bits r) (pkt, data_lost, ack_lost)"
  shows "\<exists>r' out st. DATA_IN r pkt data_lost ack_lost = Some (r', out, st) \<and>
           receiver_inv r' \<and> r_n_bits r' = r_n_bits r"
proof -
  let ?r1 = "if int (length (payload pkt)) < p_size r
             then r\<lparr>end_receiver := True, end_num := (num pkt + 1) mod 2 ^ r_n_bits r\<rparr>
             else r"
  have r1: "receiver_inv ?r1" "r_n_bits ?r1 = r_n_bits r"
    using inv by (simp_all add: end_flags_inv)
  show ?thesis
  proof (cases "data_lost \<or> ptype pkt \<noteq> 0")
    case True
    with inv show ?thesis by (auto simp: DATA_IN_def)
  next
    case False
    with n have nr: "0 \<le> num pkt" "num pkt < 2 ^ r_n_bits r" by (auto simp: numbered_def)
    show ?thesis
    proof (cases "num pkt = nxt ?r1")
      case True
      from deliver_inv[OF r1(1), of "payload pkt"] obtain r' where
        "deliver ?r1 (payload pkt) = Some r'" "receiver_inv r'" "r_n_bits r' = r_n_bits ?r1"
        by auto
      with False True r1(2) show ?thesis
        by (cases ack_lost) (simp_all add: DATA_IN_def Let_def)
    next
      case neq: False
      from store_inv[OF r1(1), of "num pkt" "payload pkt"] nr r1(2)
      have "receiver_inv (store ?r1 (num pkt) (payload pkt))"
        "r_n_bits (store ?r1 (num pkt) (payload pkt)) = r_n_bits r" by simp_all
      with False neq show ?thesis
        by (cases ack_lost) (simp_all add: DATA_IN_def Let_def)
    qed
  qed
qed

lemma receiver_run_inv:
  "receiver_inv r \<Longrightarrow> list_all (numbered (r_n_bits r)) evs \<Longrightarrow>
   \<exists>r' out' st'. receiver_run (r, out, st) evs = Some (r', out', st') \<and> receiver_inv r'"
proof (induction evs arbitrary: r out st)
  case Nil
  then show ?case by simp
next
  case (Cons ev evs)
  show ?case
  proof (cases st)
    case R_END
    with Cons.prems show ?thesis by simp
  next
    case (R_RAISED e)
    with Cons.prems show ?thesis by simp
  next
    case WAIT_SEGMENT
    obtain pkt dl al where ev: "ev = (pkt, dl, al)" by (cases ev)
    from Cons.prems(2) ev have n: "numbered (r_n_bits r) (pkt, dl, al)" by simp
    from DATA_IN_inv[OF Cons.prems(1) n] obtain r1 out1 st1 where
      d: "DATA_IN r pkt dl al = Some (r1, out1, st1)" "receiver_inv r1" "r_n_bits r1 = r_n_bits r"
      by blast
    from Cons.prems(2) d(3)
    have "list_all (numbered (r_n_bits r1)) evs" by simp
    from Cons.IH[OF d(2) this, of "out @ out1" st1] d(1) WAIT_SEGMENT ev show ?thesis by simp
  qed
qed

lemma small_receiver_initial: "r_parse_args 2 2 1 = Inr small_receiver"
  by (simp add: r_parse_args_def small_receiver_def)

text \<open>
  C3, as the claim states it, fails: the handler does not check that \<open>num\<close> is below
  \<open>2 ^ n_bits\<close>, and \<open>num\<close> is a byte. With 2-bit numbers and window 2, after 0, 1, 2
  were delivered the segment with \<open>num = 4\<close> is buffered (it passes
  \<open>expected + 1 \<le> num \<le> expected + W - 1\<close> for \<open>expected = 3\<close>); when 3 arrives,
  \<open>expected\<close> becomes 0 and the buffered 4 is at distance \<open>(4 - 0) mod 4 = 0\<close>.
\<close>

theorem C3_byte_number_counterexample:
  "map_option (\<lambda>(r, out, st).
       (nxt r, buffer_seq r,
        list_all (\<lambda>k. 1 \<le> (k - nxt r) mod 2 ^ r_n_bits r \<and>
                      (k - nxt r) mod 2 ^ r_n_bits r \<le> r_win r - 1) (buffer_seq r)))
     (receiver_run (small_receiver, [], WAIT_SEGMENT)
       [(data_segment 0 0 2 ''a'', False, False), (data_segment 0 1 2 ''b'', False, False),
        (data_segment 0 2 2 ''c'', False, False), (data_segment 0 4 2 ''e'', False, False),
        (data_segment 0 3 2 ''d'', False, False)])
   = Some (0, [4], False)"
  by code_simp

text \<open>
  C3, amended. From the initial state, after any sequence of incoming segments in
  which every DATA segment that survives the loss simulator has a number below
  \<open>2 ^ n_bits\<close>, each handler has come to its end (the drain loop terminates; the
  run may have stopped on an ACK that could not be sent), and in the state reached
  every buffered number \<open>k\<close> satisfies \<open>1 \<le> (k - expected) mod 2 ^ n_bits \<le> W - 1\<close>,
  and \<open>expected\<close> itself is not buffered. Acceptance into the buffer (\<open>store_inv\<close>)
  and the drain after an in-order delivery (\<open>deliver_inv\<close>) each preserve the
  invariant.
\<close>

theorem C3_out_of_order_window:
  assumes "r_parse_args nbits window chunk_size = Inr r0"
    and "list_all (numbered nbits) evs"
  shows "\<exists>r out st. receiver_run (r0, [], WAIT_SEGMENT) evs = Some (r, out, st) \<and>
           list_all (\<lambda>k. 1 \<le> (k - nxt r) mod 2 ^ r_n_bits r \<and>
                         (k - nxt r) mod 2 ^ r_n_bits r \<le> r_win r - 1) (buffer_seq r) \<and>
           nxt r \<notin> set (buffer_seq r)"
proof -
  from assms(1) have r0: "receiver_inv r0" "r_n_bits r0 = nbits"
    by (auto simp: r_parse_args_def receiver_inv_def wf_buffer_def within_def split: if_splits)
  from receiver_run_inv[OF r0(1), of evs "[]" WAIT_SEGMENT] assms(2) r0(2) obtain r out st where
    r: "receiver_run (r0, [], WAIT_SEGMENT) evs = Some (r, out, st)" "receiver_inv r" by auto
  from r(2) have w: "list_all (\<lambda>k. 1 \<le> (k - nxt r) mod 2 ^ r_n_bits r \<and>
                         (k - nxt r) mod 2 ^ r_n_bits r \<le> r_win r - 1) (buffer_seq r)"
    by (simp add: receiver_inv_def within_def)
  have "nxt r \<notin> set (buffer_seq r)"
  proof
    assume "nxt r \<in> set (buffer_seq r)"
    with w have "1 \<le> (nxt r - nxt r) mod 2 ^ r_n_bits r" by (auto simp: list_all_iff)
    then show False by simp
  qed
  with r(1) w show ?thesis by blast
qed

lemma two_buffered:
  "map_option (\<lambda>(r, out, st). (nxt r, buffer_seq r))
     (receiver_run (idle_receiver, [], WAIT_SEGMENT) [arrives 0 2 ''a'', arrives 0 3 ''b''])
   = Some (0, [2, 3])"
  by code_simp

theorem C3_out_of_order_window_witness:
  "\<exists>r out st. receiver_run (idle_receiver, [], WAIT_SEGMENT)
                 [arrives 0 2 ''a'', arrives 0 3 ''b''] = Some (r, out, st) \<and>
     buffer_seq r = [2, 3] \<and>
     list_all (\<lambda>k. 1 \<le> (k - nxt r) mod 2 ^ r_n_bits r \<and>
                   (k - nxt r) mod 2 ^ r_n_bits r \<le> r_win r - 1) (buffer_seq r) \<and>
     nxt r \<notin> set (buffer_seq r)"
proof -
  have a: "r_parse_args 3 4 1 = Inr idle_receiver"
    by (simp add: r_parse_args_def idle_receiver_def)
  have b: "list_all (numbered 3) [arrives 0 2 ''a'', arrives 0 3 ''b'']"
    by (simp add: numbered_def arrives_def data_segment_def)
  from C3_out_of_order_window[OF a b] obtain r out st where
    r: "receiver_run (idle_receiver, [], WAIT_SEGMENT)
          [arrives 0 2 ''a'', arrives 0 3 ''b''] = Some (r, out, st)"
       "list_all (\<lambda>k. 1 \<le> (k - nxt r) mod 2 ^ r_n_bits r \<and>
                   (k - nxt r) mod 2 ^ r_n_bits r \<le> r_win r - 1) (buffer_seq r)"
       "nxt r \<notin> set (buffer_seq r)" by blast
  from two_buffered r(1) have "buffer_seq r = [2, 3]" by simp
  with r show ?thesis by blast
qed

text \<open>
  A receiver whose window is not a byte (256, allowed for 8-bit numbers) cannot send
  its first ACK: the handler stops on the exception, with the segment delivered.
\<close>

lemma wide_window_raises:
  "map_option (\<lambda>(r, out, st). (nxt r, out_file r, out, st))
     (case r_parse_args 8 256 1 of
        Inl e \<Rightarrow> None
      | Inr r0 \<Rightarrow> receiver_run (r0, [], WAIT_SEGMENT) [(data_segment 0 0 4 ''a'', False, False)])
   = Some (1, ''a'', [], R_RAISED StructError)"
  by code_simp

end
